theory Spec2Isabelle
  imports Main "HOL-Library.Signed_Division"
begin

section \<open>The lock-free circular queue of EspSoftwareSerial\<close>

text \<open>
  This theory embeds \<^verbatim>\<open>src/CircularQueue/CircularQueue.h\<close>: the class template
  \<^verbatim>\<open>CircularQueue<T>\<close> (one producer, one consumer) and its extension
  \<^verbatim>\<open>CircularQueueMP<T>\<close> (several producers).

  Conventions of the embedding:
  \<^item> the C++ \<^verbatim>\<open>int\<close> members (\<^verbatim>\<open>m_bufSize\<close> and the cursors) are HOL integers, the
    \<^verbatim>\<open>size_t\<close> values (capacity, counts) are natural numbers, and every conversion
    between the two that the source performs is written out (\<open>nat\<close>, \<open>int\<close>).
    The embedding covers the capacities for which \<^verbatim>\<open>capacity + 1\<close> is representable
    as a C++ \<^verbatim>\<open>int\<close>; under the invariant \<open>queue_inv\<close> below every intermediate value
    of the code then lies between \<open>- m_bufSize\<close> and \<open>2 * m_bufSize\<close>
    (\<open>intermediate_values_bounded\<close>), so no operation wraps around;
  \<^item> the operator \<^verbatim>\<open>%\<close> on \<^verbatim>\<open>int\<close> truncates towards zero: it is \<open>smod\<close>; on
    \<^verbatim>\<open>size_t\<close> it is \<open>mod\<close> on natural numbers;
  \<^item> the storage \<^verbatim>\<open>std::atomic<T>[]\<close> is a list of element values, read with \<open>!\<close> and
    written with list update; under \<open>queue_inv\<close> every index the code uses is within
    the bounds of the list;
  \<^item> each operation is a function from the state of the object to its result and the
    new state. Every load and store of the source is sequentially consistent
    (\<^verbatim>\<open>load()\<close>, \<^verbatim>\<open>store()\<close>, \<^verbatim>\<open>exchange()\<close> and the compare-exchange calls are
    used with their default memory order), so the program order of the stores of
    one call is the order in which another thread can observe them; \<open>push\<close> keeps
    this order explicit as a list of stores.
\<close>

subsection \<open>State\<close>

record 'a CircularQueue =
  defaultValue :: 'a
  m_bufSize :: int
  m_buffer :: "'a list"
  m_inPosT :: int
  m_outPos :: int

record 'a CircularQueueMP = "'a CircularQueue" +
  m_inPosL :: int
  m_inPosC :: int

text \<open>
  The constructor, lines 31--35. The element type's value-initialised \<^verbatim>\<open>T{}\<close> is the
  parameter \<open>dflt\<close>. The array allocated by \<^verbatim>\<open>new std::atomic<T>[m_bufSize]\<close> is not
  initialised by the constructor: its initial content is the parameter \<open>mem\<close>,
  about which nothing is assumed.
\<close>

definition CircularQueue :: "'a \<Rightarrow> (nat \<Rightarrow> 'a) \<Rightarrow> nat \<Rightarrow> 'a CircularQueue" where
  "CircularQueue dflt mem capacity =
     (let bufSize = int capacity + 1 in
      \<lparr> defaultValue = dflt,
        m_bufSize = bufSize,
        m_buffer = map mem [0 ..< nat bufSize],
        m_inPosT = 0,
        m_outPos = 0 \<rparr>)"

text \<open>The constructor of the derived class, lines 123--127.\<close>

definition CircularQueueMP :: "'a \<Rightarrow> (nat \<Rightarrow> 'a) \<Rightarrow> nat \<Rightarrow> 'a CircularQueueMP" where
  "CircularQueueMP dflt mem capacity =
     CircularQueue.extend (CircularQueue dflt mem capacity)
       (CircularQueueMP.fields 0 0)"

subsection \<open>Operations of \<^verbatim>\<open>CircularQueue\<close>\<close>

text \<open>
  The operations are defined on the record scheme, so that the derived class
  inherits them, as \<^verbatim>\<open>using CircularQueue<T>::flush\<close> and its siblings do.
\<close>

definition flush :: "('a, 'z) CircularQueue_scheme \<Rightarrow> ('a, 'z) CircularQueue_scheme" where
  "flush q = q\<lparr> m_outPos := m_inPosT q \<rparr>"

definition available :: "('a, 'z) CircularQueue_scheme \<Rightarrow> nat" where
  "available q =
     (let avail = m_inPosT q - m_outPos q;
          avail = (if avail < 0 then avail + m_bufSize q else avail)
      in nat avail)"

definition availableForWrite :: "('a, 'z) CircularQueue_scheme \<Rightarrow> nat" where
  "availableForWrite q =
     (let avail = m_outPos q - m_inPosT q - 1;
          avail = (if avail < 0 then avail + m_bufSize q else avail)
      in nat avail)"

definition peek :: "('a, 'z) CircularQueue_scheme \<Rightarrow> 'a" where
  "peek q =
     (let outPos = m_outPos q
      in if m_inPosT q = outPos then defaultValue q else m_buffer q ! nat outPos)"

text \<open>
  The stores of \<^verbatim>\<open>push\<close>, lines 67--79, in program order: \<^verbatim>\<open>m_inPosT.store(next)\<close> on
  line 74, then \<^verbatim>\<open>m_buffer[inPos].store(val)\<close> on line 76. \<open>None\<close> is the early
  return of line 72.
\<close>

datatype 'a store = Store_m_inPosT int | Store_m_buffer int 'a

fun apply_store :: "'a store \<Rightarrow> ('a, 'z) CircularQueue_scheme \<Rightarrow> ('a, 'z) CircularQueue_scheme" where
  "apply_store (Store_m_inPosT v) q = q\<lparr> m_inPosT := v \<rparr>"
| "apply_store (Store_m_buffer i v) q = q\<lparr> m_buffer := (m_buffer q)[nat i := v] \<rparr>"

definition push_stores :: "('a, 'z) CircularQueue_scheme \<Rightarrow> 'a \<Rightarrow> 'a store list option" where
  "push_stores q val =
     (let inPos = m_inPosT q;
          next = (inPos + 1) smod m_bufSize q
      in if next = m_outPos q then None
         else Some [Store_m_inPosT next, Store_m_buffer inPos val])"

definition push :: "('a, 'z) CircularQueue_scheme \<Rightarrow> 'a \<Rightarrow> bool \<times> ('a, 'z) CircularQueue_scheme" where
  "push q val =
     (case push_stores q val of
        None \<Rightarrow> (False, q)
      | Some ss \<Rightarrow> (True, fold apply_store ss q))"

text \<open>
  \<^verbatim>\<open>pop\<close>, lines 81--92. Both preprocessor branches (\<^verbatim>\<open>store\<close> on the ESP8266,
  \<^verbatim>\<open>exchange\<close> elsewhere) write the same value to \<^verbatim>\<open>m_outPos\<close>.
\<close>

definition pop :: "('a, 'z) CircularQueue_scheme \<Rightarrow> 'a \<times> ('a, 'z) CircularQueue_scheme" where
  "pop q =
     (let outPos = m_outPos q
      in if m_inPosT q = outPos then (defaultValue q, q)
         else let val = m_buffer q ! nat outPos
              in (val, q\<lparr> m_outPos := (outPos + 1) smod m_bufSize q \<rparr>))"

text \<open>
  \<^verbatim>\<open>std::copy_n(first, n, result)\<close>: \<open>n\<close> assignments \<^verbatim>\<open>*result++ = *first++\<close>. The
  source range is the storage from index \<open>first\<close>, the destination is the caller's
  array \<open>dst\<close> with the output pointer at index \<open>p\<close>; the advanced pointer is returned.
\<close>

fun copy_n :: "'a list \<Rightarrow> nat \<Rightarrow> nat \<Rightarrow> 'a list \<times> nat \<Rightarrow> 'a list \<times> nat" where
  "copy_n src first 0 (dst, p) = (dst, p)"
| "copy_n src first (Suc n) (dst, p) = copy_n src (Suc first) n (dst[p := src ! first], Suc p)"

text \<open>
  \<^verbatim>\<open>pop_n\<close>, lines 94--110. The result is the returned count, the caller's array
  after the call and the new state (\<open>sz\<close> is the parameter \<^verbatim>\<open>size\<close>). On line 105/107 \<^verbatim>\<open>outPos + size\<close> is computed in
  \<^verbatim>\<open>size_t\<close>, and so is the remainder.
\<close>

definition pop_n ::
  "('a, 'z) CircularQueue_scheme \<Rightarrow> 'a list \<Rightarrow> nat \<Rightarrow> nat \<times> 'a list \<times> ('a, 'z) CircularQueue_scheme" where
  "pop_n q buffer sz =
     (let sz = min sz (available q);
          avail = sz
      in if avail = 0 then (0, buffer, q)
         else
           let outPos = m_outPos q;
               n = min avail (nat (m_bufSize q - outPos));
               (buffer, p) = copy_n (m_buffer q) (nat outPos) n (buffer, 0);
               avail = avail - n;
               (buffer, p) = (if 0 < avail then copy_n (m_buffer q) 0 avail (buffer, p)
                              else (buffer, p))
           in (sz, buffer, q\<lparr> m_outPos := int ((nat outPos + sz) mod nat (m_bufSize q)) \<rparr>))"

subsection \<open>Operations of \<^verbatim>\<open>CircularQueueMP\<close>\<close>

definition CircularQueueMP_availableForWrite :: "('a, 'z) CircularQueueMP_scheme \<Rightarrow> nat" where
  "CircularQueueMP_availableForWrite q =
     (let avail = m_outPos q - m_inPosL q - 1;
          avail = (if avail < 0 then avail + m_bufSize q else avail)
      in nat avail)"

text \<open>
  \<^verbatim>\<open>CircularQueueMP::push\<close> without \<^verbatim>\<open>ESP8266\<close>, lines 159--180, run by one thread
  with no other thread running in between. A compare-exchange on a cell succeeds
  only if the cell holds the expected value, and on failure loads the cell into the
  expected value. \<^verbatim>\<open>compare_exchange_weak\<close> may also fail although the cell holds
  the expected value: the parameter \<open>spurious\<close> of each loop is the number of times
  it still does so. (With \<^verbatim>\<open>ESP8266\<close> defined, lines 143--157, the body is that
  of \<^verbatim>\<open>CircularQueue::push\<close> with interrupts disabled: that variant is \<open>push\<close>
  itself.)

  The first loop, lines 161--165: \<open>None\<close> is \<^verbatim>\<open>return false\<close>, otherwise the result
  is the state after the successful compare-exchange and the final \<^verbatim>\<open>inPos\<close>.
\<close>

function reserve ::
  "('a, 'z) CircularQueueMP_scheme \<Rightarrow> int \<Rightarrow> nat \<Rightarrow> (('a, 'z) CircularQueueMP_scheme \<times> int) option" where
  "reserve q inPos spurious =
     (let nextL = (inPos + 1) smod m_bufSize q
      in if nextL = m_outPos q then None
         else if m_inPosL q \<noteq> inPos then reserve q (m_inPosL q) spurious
         else if 0 < spurious then reserve q (m_inPosL q) (spurious - 1)
         else Some (q\<lparr> m_inPosL := nextL \<rparr>, inPos))"
  by pat_completeness auto
termination
  by (relation "measure (\<lambda>(q, inPos, spurious). (if m_inPosL q = inPos then 0 else 1) + spurious)") auto

text \<open>
  The second loop, lines 170--173: the result is the state after the successful
  compare-exchange and the final \<^verbatim>\<open>wrappedC\<close>.
\<close>

function complete ::
  "('a, 'z) CircularQueueMP_scheme \<Rightarrow> int \<Rightarrow> nat \<Rightarrow> ('a, 'z) CircularQueueMP_scheme \<times> int" where
  "complete q inPosC spurious =
     (let wrappedC = (inPosC + 1) smod m_bufSize q
      in if m_inPosC q \<noteq> inPosC then complete q (m_inPosC q) spurious
         else if 0 < spurious then complete q (m_inPosC q) (spurious - 1)
         else (q\<lparr> m_inPosC := wrappedC \<rparr>, wrappedC))"
  by pat_completeness auto
termination
  by (relation "measure (\<lambda>(q, inPosC, spurious). (if m_inPosC q = inPosC then 0 else 1) + spurious)") auto

text \<open>
  The whole call; \<^verbatim>\<open>compare_exchange_strong\<close> on line 175 does not fail spuriously.
\<close>

definition CircularQueueMP_push ::
  "('a, 'z) CircularQueueMP_scheme \<Rightarrow> 'a \<Rightarrow> nat \<Rightarrow> nat \<Rightarrow> bool \<times> ('a, 'z) CircularQueueMP_scheme" where
  "CircularQueueMP_push q val spuriousL spuriousC =
     (case reserve q (m_inPosL q) spuriousL of
        None \<Rightarrow> (False, q)
      | Some (q, inPos) \<Rightarrow>
          let q = q\<lparr> m_buffer := (m_buffer q)[nat inPos := val] \<rparr>;
              (q, wrappedC) = complete q (m_inPosC q) spuriousC;
              q = (if m_inPosL q = wrappedC then q\<lparr> m_inPosT := wrappedC \<rparr> else q)
          in (True, q))"

subsection \<open>Invariant and reachable states\<close>

definition queue_inv :: "('a, 'z) CircularQueue_scheme \<Rightarrow> bool" where
  "queue_inv q \<longleftrightarrow>
     0 < m_bufSize q \<and> length (m_buffer q) = nat (m_bufSize q) \<and>
     0 \<le> m_inPosT q \<and> m_inPosT q < m_bufSize q \<and>
     0 \<le> m_outPos q \<and> m_outPos q < m_bufSize q"

definition queueMP_inv :: "('a, 'z) CircularQueueMP_scheme \<Rightarrow> bool" where
  "queueMP_inv q \<longleftrightarrow>
     queue_inv q \<and>
     0 \<le> m_inPosL q \<and> m_inPosL q < m_bufSize q \<and>
     0 \<le> m_inPosC q \<and> m_inPosC q < m_bufSize q"

text \<open>
  The states of a \<^verbatim>\<open>CircularQueue\<close> object of the given capacity after any sequence
  of calls of its public member functions (\<^verbatim>\<open>available\<close>, \<^verbatim>\<open>availableForWrite\<close> and
  \<^verbatim>\<open>peek\<close> do not change the state).
\<close>

inductive_set reachable :: "'a \<Rightarrow> nat \<Rightarrow> 'a CircularQueue set" for dflt :: 'a and capacity :: nat where
  r_init: "CircularQueue dflt mem capacity \<in> reachable dflt capacity"
| r_flush: "q \<in> reachable dflt capacity \<Longrightarrow> flush q \<in> reachable dflt capacity"
| r_push: "q \<in> reachable dflt capacity \<Longrightarrow> snd (push q val) \<in> reachable dflt capacity"
| r_pop: "q \<in> reachable dflt capacity \<Longrightarrow> snd (pop q) \<in> reachable dflt capacity"
| r_pop_n: "q \<in> reachable dflt capacity \<Longrightarrow> snd (snd (pop_n q buffer sz)) \<in> reachable dflt capacity"

text \<open>
  The same for a \<^verbatim>\<open>CircularQueueMP\<close> object: its \<^verbatim>\<open>push\<close> replaces the inherited one,
  which protected inheritance hides.
\<close>

inductive_set reachableMP :: "'a \<Rightarrow> nat \<Rightarrow> 'a CircularQueueMP set" for dflt :: 'a and capacity :: nat where
  rm_init: "CircularQueueMP dflt mem capacity \<in> reachableMP dflt capacity"
| rm_flush: "q \<in> reachableMP dflt capacity \<Longrightarrow> flush q \<in> reachableMP dflt capacity"
| rm_push: "q \<in> reachableMP dflt capacity \<Longrightarrow>
     snd (CircularQueueMP_push q val spuriousL spuriousC) \<in> reachableMP dflt capacity"
| rm_pop: "q \<in> reachableMP dflt capacity \<Longrightarrow> snd (pop q) \<in> reachableMP dflt capacity"
| rm_pop_n: "q \<in> reachableMP dflt capacity \<Longrightarrow> snd (snd (pop_n q buffer sz)) \<in> reachableMP dflt capacity"

subsection \<open>Sequences of calls\<close>

fun push_seq :: "('a, 'z) CircularQueue_scheme \<Rightarrow> 'a list \<Rightarrow> bool list \<times> ('a, 'z) CircularQueue_scheme" where
  "push_seq q [] = ([], q)"
| "push_seq q (v # vs) =
     (let (b, q) = push q v;
          (bs, q) = push_seq q vs
      in (b # bs, q))"

fun pop_seq :: "nat \<Rightarrow> ('a, 'z) CircularQueue_scheme \<Rightarrow> 'a list \<times> ('a, 'z) CircularQueue_scheme" where
  "pop_seq 0 q = ([], q)"
| "pop_seq (Suc n) q =
     (let (v, q) = pop q;
          (vs, q) = pop_seq n q
      in (v # vs, q))"

subsection \<open>Abstraction\<close>

text \<open>
  The elements the consumer has not read yet, oldest first: the slots from
  \<^verbatim>\<open>m_outPos\<close> up to, but excluding, \<^verbatim>\<open>m_inPosT\<close>, around the end of the storage.
\<close>

definition unread :: "('a, 'z) CircularQueue_scheme \<Rightarrow> 'a list" where
  "unread q =
     map (\<lambda>k. m_buffer q ! ((nat (m_outPos q) + k) mod nat (m_bufSize q))) [0 ..< available q]"

section \<open>Basic facts\<close>

lemma smod_cursor: "0 \<le> a \<Longrightarrow> 0 < b \<Longrightarrow> (a + 1) smod b = (a + 1) mod (b::int)"
  by (simp add: smod_mod_positive)

lemma CircularQueue_fields [simp]:
  "defaultValue (CircularQueue dflt mem C) = dflt"
  "m_bufSize (CircularQueue dflt mem C) = int C + 1"
  "m_buffer (CircularQueue dflt mem C) = map mem [0 ..< Suc C]"
  "m_inPosT (CircularQueue dflt mem C) = 0"
  "m_outPos (CircularQueue dflt mem C) = 0"
  by (simp_all add: CircularQueue_def Let_def nat_add_distrib)

lemma CircularQueueMP_fields [simp]:
  "defaultValue (CircularQueueMP dflt mem C) = dflt"
  "m_bufSize (CircularQueueMP dflt mem C) = int C + 1"
  "m_buffer (CircularQueueMP dflt mem C) = map mem [0 ..< Suc C]"
  "m_inPosT (CircularQueueMP dflt mem C) = 0"
  "m_outPos (CircularQueueMP dflt mem C) = 0"
  "m_inPosL (CircularQueueMP dflt mem C) = 0"
  "m_inPosC (CircularQueueMP dflt mem C) = 0"
  by (simp_all add: CircularQueueMP_def CircularQueue.extend_def CircularQueueMP.fields_def)

text \<open>
  Under the invariant the values that the code computes in \<^verbatim>\<open>int\<close> and \<^verbatim>\<open>size_t\<close>
  (lines 49, 56, 70, 87, 98 and 105) stay between \<open>- m_bufSize\<close> and
  \<open>2 * m_bufSize\<close>, and every slot that is read or written (lines 64, 76, 85, 99
  and 102) is within the storage.
\<close>

lemma intermediate_values_bounded:
  assumes "queue_inv q" "n \<le> available q"
  shows "- m_bufSize q < m_inPosT q - m_outPos q \<and> m_inPosT q - m_outPos q < m_bufSize q"
    and "- m_bufSize q \<le> m_outPos q - m_inPosT q - 1 \<and> m_outPos q - m_inPosT q - 1 < m_bufSize q"
    and "0 < m_inPosT q + 1 \<and> m_inPosT q + 1 \<le> m_bufSize q"
    and "0 < m_outPos q + 1 \<and> m_outPos q + 1 \<le> m_bufSize q"
    and "0 < m_bufSize q - m_outPos q \<and> m_bufSize q - m_outPos q \<le> m_bufSize q"
    and "int (nat (m_outPos q) + n) < 2 * m_bufSize q"
    and "nat (m_inPosT q) < length (m_buffer q) \<and> nat (m_outPos q) < length (m_buffer q)"
    and "nat (m_outPos q) + min n (nat (m_bufSize q - m_outPos q)) \<le> length (m_buffer q)"
    and "n - min n (nat (m_bufSize q - m_outPos q)) \<le> length (m_buffer q)"
  using assms by (auto simp add: queue_inv_def available_def Let_def split: if_splits)

lemma queue_inv_init: "queue_inv (CircularQueue dflt mem C)"
  by (simp add: queue_inv_def)

lemma queue_inv_flush: "queue_inv q \<Longrightarrow> queue_inv (flush q)"
  by (simp add: queue_inv_def flush_def)

lemma push_full:
  "(m_inPosT q + 1) smod m_bufSize q = m_outPos q \<Longrightarrow> push q val = (False, q)"
  by (simp add: push_def push_stores_def)

lemma push_not_full:
  "(m_inPosT q + 1) smod m_bufSize q \<noteq> m_outPos q \<Longrightarrow>
   push q val = (True, q\<lparr> m_inPosT := (m_inPosT q + 1) smod m_bufSize q,
                          m_buffer := (m_buffer q)[nat (m_inPosT q) := val] \<rparr>)"
  by (simp add: push_def push_stores_def Let_def)

lemma queue_inv_push: "queue_inv q \<Longrightarrow> queue_inv (snd (push q val))"
  by (cases "(m_inPosT q + 1) smod m_bufSize q = m_outPos q")
     (simp_all add: push_full push_not_full queue_inv_def smod_int_compares)

lemma queue_inv_pop: "queue_inv q \<Longrightarrow> queue_inv (snd (pop q))"
  by (simp add: pop_def Let_def queue_inv_def smod_int_compares)

lemma pop_n_state:
  "snd (snd (pop_n q buffer sz)) =
     (if min sz (available q) = 0 then q
      else q\<lparr> m_outPos := int ((nat (m_outPos q) + min sz (available q)) mod nat (m_bufSize q)) \<rparr>)"
  by (auto simp add: pop_n_def Let_def split: prod.splits)

lemma queue_inv_pop_n: "queue_inv q \<Longrightarrow> queue_inv (snd (snd (pop_n q buffer sz)))"
  by (simp add: pop_n_state queue_inv_def zmod_int)

lemma reachable_inv:
  "q \<in> reachable dflt C \<Longrightarrow> queue_inv q \<and> m_bufSize q = int C + 1"
proof (induction rule: reachable.induct)
  case (r_init mem)
  show ?case by (simp add: queue_inv_init)
next
  case (r_flush q)
  then show ?case by (simp add: queue_inv_flush) (simp add: flush_def)
next
  case (r_push q val)
  then show ?case
    by (cases "(m_inPosT q + 1) smod m_bufSize q = m_outPos q")
       (simp_all add: queue_inv_push, simp_all add: push_full push_not_full)
next
  case (r_pop q)
  then show ?case by (simp add: queue_inv_pop) (simp add: pop_def Let_def)
next
  case (r_pop_n q buffer sz)
  then show ?case by (simp add: queue_inv_pop_n) (simp add: pop_n_state)
qed

lemma reachable_one_slot:
  "q \<in> reachable dflt 0 \<Longrightarrow> m_bufSize q = 1 \<and> m_inPosT q = 0 \<and> m_outPos q = 0"
  using reachable_inv [of q dflt 0] by (auto simp add: queue_inv_def)

lemma reserve_first:
  "reserve q (m_inPosL q) n =
     (if (m_inPosL q + 1) smod m_bufSize q = m_outPos q then None
      else Some (q\<lparr> m_inPosL := (m_inPosL q + 1) smod m_bufSize q \<rparr>, m_inPosL q))"
proof (induction n)
  case 0
  show ?case by (simp add: Let_def)
next
  case (Suc n)
  have "reserve q (m_inPosL q) (Suc n) =
        (if (m_inPosL q + 1) smod m_bufSize q = m_outPos q then None
         else reserve q (m_inPosL q) n)"
    by (subst reserve.simps) (simp add: Let_def del: reserve.simps)
  with Suc.IH show ?case by (simp del: reserve.simps)
qed

lemma complete_first:
  "complete q (m_inPosC q) n =
     (q\<lparr> m_inPosC := (m_inPosC q + 1) smod m_bufSize q \<rparr>, (m_inPosC q + 1) smod m_bufSize q)"
proof (induction n)
  case 0
  show ?case by (simp add: Let_def)
next
  case (Suc n)
  have "complete q (m_inPosC q) (Suc n) = complete q (m_inPosC q) n"
    by (subst complete.simps) (simp add: Let_def del: complete.simps)
  then show ?case by (simp only: Suc.IH)
qed

lemma CircularQueueMP_push_eq:
  "CircularQueueMP_push q val sL sC =
     (let nextL = (m_inPosL q + 1) smod m_bufSize q;
          wrappedC = (m_inPosC q + 1) smod m_bufSize q
      in if nextL = m_outPos q then (False, q)
         else if nextL = wrappedC
           then (True, q\<lparr> m_inPosL := nextL, m_buffer := (m_buffer q)[nat (m_inPosL q) := val],
                           m_inPosC := wrappedC, m_inPosT := wrappedC \<rparr>)
           else (True, q\<lparr> m_inPosL := nextL, m_buffer := (m_buffer q)[nat (m_inPosL q) := val],
                           m_inPosC := wrappedC \<rparr>))"
proof -
  have c: "complete (q\<lparr> m_inPosL := l, m_buffer := b \<rparr>) (m_inPosC q) sC =
           (q\<lparr> m_inPosL := l, m_buffer := b, m_inPosC := (m_inPosC q + 1) smod m_bufSize q \<rparr>,
            (m_inPosC q + 1) smod m_bufSize q)" for l b
    using complete_first [of "q\<lparr> m_inPosL := l, m_buffer := b \<rparr>" sC] by simp
  show ?thesis
    unfolding CircularQueueMP_push_def reserve_first
    by (simp add: Let_def c del: reserve.simps complete.simps)
qed










lemma bufSize_push: "m_bufSize (snd (push q val)) = m_bufSize q"
  by (simp add: push_def push_stores_def Let_def)



text \<open>
  Called one after the other, the operations of \<^verbatim>\<open>CircularQueueMP\<close> keep the
  reservation cursor, the completion counter and the published cursor equal.
\<close>

lemma reachableMP_cursors_equal:
  "q \<in> reachableMP dflt C \<Longrightarrow> m_inPosL q = m_inPosT q \<and> m_inPosC q = m_inPosT q"
proof (induction rule: reachableMP.induct)
  case (rm_init mem)
  show ?case by simp
next
  case (rm_flush q)
  then show ?case by (simp add: flush_def)
next
  case (rm_push q val sL sC)
  then show ?case by (simp add: CircularQueueMP_push_eq Let_def)
next
  case (rm_pop q)
  then show ?case by (simp add: pop_def Let_def)
next
  case (rm_pop_n q buffer sz)
  then show ?case by (simp add: pop_n_state)
qed

text \<open>
  The invariant also holds after each store of \<^verbatim>\<open>CircularQueueMP::push\<close>, and the
  slot it writes is within the storage.
\<close>

lemma CircularQueueMP_push_steps_inv:
  assumes "queueMP_inv q" "reserve q (m_inPosL q) sL = Some (q1, inPos)"
  shows "queueMP_inv q1"
    and "0 \<le> inPos \<and> nat inPos < length (m_buffer q1)"
    and "queueMP_inv (q1\<lparr> m_buffer := (m_buffer q1)[nat inPos := val] \<rparr>)"
    and "queueMP_inv (fst (complete (q1\<lparr> m_buffer := (m_buffer q1)[nat inPos := val] \<rparr>) (m_inPosC q1) sC))"
proof -
  from assms(2) have q1: "q1 = q\<lparr> m_inPosL := (m_inPosL q + 1) smod m_bufSize q \<rparr>"
    and inPos: "inPos = m_inPosL q"
    unfolding reserve_first by (auto split: if_splits)
  show 1: "queueMP_inv q1"
    using assms(1) by (simp add: q1 queueMP_inv_def queue_inv_def smod_int_compares)
  show "0 \<le> inPos \<and> nat inPos < length (m_buffer q1)"
    using assms(1) by (simp add: q1 inPos queueMP_inv_def queue_inv_def)
  show 2: "queueMP_inv (q1\<lparr> m_buffer := (m_buffer q1)[nat inPos := val] \<rparr>)"
    using 1 by (simp add: queueMP_inv_def queue_inv_def)
  have "m_inPosC q1 = m_inPosC (q1\<lparr> m_buffer := (m_buffer q1)[nat inPos := val] \<rparr>)"
    by simp
  then show "queueMP_inv (fst (complete (q1\<lparr> m_buffer := (m_buffer q1)[nat inPos := val] \<rparr>) (m_inPosC q1) sC))"
    using 2 by (simp only: complete_first) (simp add: queueMP_inv_def queue_inv_def smod_int_compares)
qed

section \<open>The unread elements\<close>

lemma idx_mod:
  "o' < N \<Longrightarrow> k < N \<Longrightarrow> (o' + k) mod N = (if o' + k < N then o' + k else o' + k - (N::nat))"
  by (simp add: le_mod_geq)

lemma queue_inv_natE:
  assumes "queue_inv q"
  obtains N i o' where "m_bufSize q = int N" "m_inPosT q = int i" "m_outPos q = int o'"
    "0 < N" "i < N" "o' < N" "length (m_buffer q) = N"
proof -
  from assms have "m_bufSize q = int (nat (m_bufSize q))" "m_inPosT q = int (nat (m_inPosT q))"
    "m_outPos q = int (nat (m_outPos q))" "0 < nat (m_bufSize q)"
    "nat (m_inPosT q) < nat (m_bufSize q)" "nat (m_outPos q) < nat (m_bufSize q)"
    "length (m_buffer q) = nat (m_bufSize q)"
    by (simp_all add: queue_inv_def)
  then show thesis by (rule that)
qed

lemma smod_nat: "(int a + 1) smod int N = int ((a + 1) mod N)"
  by (simp add: smod_mod_positive zmod_int add.commute)

lemma available_nat:
  "m_bufSize q = int N \<Longrightarrow> m_inPosT q = int i \<Longrightarrow> m_outPos q = int o' \<Longrightarrow>
   available q = (if i < o' then i + N - o' else i - o')"
  by (auto simp add: available_def Let_def)

lemma availableForWrite_nat:
  "m_bufSize q = int N \<Longrightarrow> m_inPosT q = int i \<Longrightarrow> m_outPos q = int o' \<Longrightarrow>
   availableForWrite q = (if o' \<le> i then o' + N - i - 1 else o' - i - 1)"
  by (auto simp add: availableForWrite_def Let_def)

lemma available_sum:
  "queue_inv q \<Longrightarrow> available q + availableForWrite q + 1 = nat (m_bufSize q)"
  by (erule queue_inv_natE) (auto simp add: available_nat availableForWrite_nat)

lemma length_unread [simp]: "length (unread q) = available q"
  by (simp add: unread_def)

lemma push_unread:
  assumes "queue_inv q" "0 < availableForWrite q"
  shows "fst (push q v) = True" "queue_inv (snd (push q v))"
    "unread (snd (push q v)) = unread q @ [v]"
    "availableForWrite (snd (push q v)) = availableForWrite q - 1"
    "m_bufSize (snd (push q v)) = m_bufSize q"
proof -
  from assms(1) obtain N i o' where n: "m_bufSize q = int N" "m_inPosT q = int i" "m_outPos q = int o'"
    "0 < N" "i < N" "o' < N" "length (m_buffer q) = N"
    by (rule queue_inv_natE)
  from assms(2) n have nf: "(i + 1) mod N \<noteq> o'"
    by (auto simp add: availableForWrite_nat mod_Suc split: if_splits)
  let ?q' = "q\<lparr> m_inPosT := int ((i + 1) mod N), m_buffer := (m_buffer q)[i := v] \<rparr>"
  have p: "push q v = (True, ?q')"
    using nf n by (simp add: push_not_full smod_nat)
  show "fst (push q v) = True" by (simp add: p)
  show "queue_inv (snd (push q v))" using assms(1) by (rule queue_inv_push)
  show "m_bufSize (snd (push q v)) = m_bufSize q" by (simp add: p)
  have n': "m_bufSize ?q' = int N" "m_inPosT ?q' = int ((i + 1) mod N)" "m_outPos ?q' = int o'"
    using n by simp_all
  show "availableForWrite (snd (push q v)) = availableForWrite q - 1"
    unfolding p snd_conv availableForWrite_nat [OF n'] availableForWrite_nat [OF n(1-3)]
    using n nf by (auto simp add: mod_Suc split: if_splits)
  have av: "available ?q' = Suc (available q)"
    unfolding available_nat [OF n'] available_nat [OF n(1-3)]
    using n nf by (auto simp add: mod_Suc split: if_splits)
  have last: "(o' + available q) mod N = i"
    unfolding available_nat [OF n(1-3)] using n by (auto simp add: idx_mod)
  have other: "i \<noteq> (o' + k) mod N" if "k < available q" for k
    using that n unfolding available_nat [OF n(1-3)] by (auto simp add: idx_mod split: if_splits)
  have "map (\<lambda>k. (m_buffer q)[i := v] ! ((o' + k) mod N)) [0 ..< available q] =
        map (\<lambda>k. m_buffer q ! ((o' + k) mod N)) [0 ..< available q]"
    by (rule map_cong [OF refl]) (simp add: other)
  then show "unread (snd (push q v)) = unread q @ [v]"
    unfolding p snd_conv unread_def av
    using n last by simp
qed


lemma pop_unread:
  assumes "queue_inv q" "0 < available q"
  shows "pop q = (hd (unread q),
                  q\<lparr> m_outPos := int (Suc (nat (m_outPos q)) mod nat (m_bufSize q)) \<rparr>)"
    and "unread (q\<lparr> m_outPos := int (Suc (nat (m_outPos q)) mod nat (m_bufSize q)) \<rparr>) = tl (unread q)"
    and "available (q\<lparr> m_outPos := int (Suc (nat (m_outPos q)) mod nat (m_bufSize q)) \<rparr>) = available q - 1"
proof -
  from assms(1) obtain N i o' where n: "m_bufSize q = int N" "m_inPosT q = int i" "m_outPos q = int o'"
    "0 < N" "i < N" "o' < N" "length (m_buffer q) = N"
    by (rule queue_inv_natE)
  let ?q' = "q\<lparr> m_outPos := int ((o' + 1) mod N) \<rparr>"
  from assms(2) n have ne: "i \<noteq> o'"
    by (auto simp add: available_nat)
  have h: "hd (unread q) = m_buffer q ! o'"
    using assms(2) n by (simp add: unread_def hd_map upt_conv_Cons)
  show "pop q = (hd (unread q),
                 q\<lparr> m_outPos := int (Suc (nat (m_outPos q)) mod nat (m_bufSize q)) \<rparr>)"
    using ne n by (simp add: pop_def Let_def h smod_nat)
  have n': "m_bufSize ?q' = int N" "m_inPosT ?q' = int i" "m_outPos ?q' = int ((o' + 1) mod N)"
    using n by simp_all
  have av: "available ?q' = available q - 1"
    unfolding available_nat [OF n'] available_nat [OF n(1-3)]
    using n ne by (auto simp add: mod_Suc split: if_splits)
  then show "available (q\<lparr> m_outPos := int (Suc (nat (m_outPos q)) mod nat (m_bufSize q)) \<rparr>) = available q - 1"
    using n by simp
  have idx: "((o' + 1) mod N + k) mod N = (o' + Suc k) mod N" for k
  proof -
    have "((o' + 1) mod N + k) mod N = (o' + 1 + k) mod N"
      by (rule mod_add_left_eq)
    then show ?thesis by simp
  qed
  have "unread ?q' = map (\<lambda>k. m_buffer q ! ((o' + Suc k) mod N)) [0 ..< available q - 1]"
    unfolding unread_def av by (simp only: n' idx nat_int) simp
  also have "\<dots> = map (\<lambda>k. m_buffer q ! ((o' + k) mod N)) (map Suc [0 ..< available q - 1])"
    by (simp add: comp_def)
  also have "map Suc [0 ..< available q - 1] = tl [0 ..< available q]"
    using assms(2) by (simp add: map_Suc_upt upt_conv_Cons)
  also have "map (\<lambda>k. m_buffer q ! ((o' + k) mod N)) (tl [0 ..< available q]) = tl (unread q)"
    using n by (simp add: unread_def map_tl [symmetric])
  finally show "unread (q\<lparr> m_outPos := int (Suc (nat (m_outPos q)) mod nat (m_bufSize q)) \<rparr>) = tl (unread q)"
    using n by simp
qed


lemma pop_seq_unread:
  "queue_inv q \<Longrightarrow> n \<le> available q \<Longrightarrow>
   pop_seq n q = (take n (unread q),
                  q\<lparr> m_outPos := int ((nat (m_outPos q) + n) mod nat (m_bufSize q)) \<rparr>)"
proof (induction n arbitrary: q)
  case 0
  then show ?case by (simp add: queue_inv_def)
next
  case (Suc n)
  let ?q1 = "q\<lparr> m_outPos := int (Suc (nat (m_outPos q)) mod nat (m_bufSize q)) \<rparr>"
  from Suc.prems have pos: "0 < available q" by simp
  note p = pop_unread [OF Suc.prems(1) pos]
  have inv1: "queue_inv ?q1"
    using queue_inv_pop [OF Suc.prems(1)] by (simp add: p(1))
  have "n \<le> available ?q1"
    using Suc.prems(2) by (simp add: p(3))
  with inv1 have ih: "pop_seq n ?q1 = (take n (unread ?q1),
      ?q1\<lparr> m_outPos := int ((nat (m_outPos ?q1) + n) mod nat (m_bufSize ?q1)) \<rparr>)"
    by (rule Suc.IH)
  have idx: "(Suc (nat (m_outPos q)) mod nat (m_bufSize q) + n) mod nat (m_bufSize q) =
             (nat (m_outPos q) + Suc n) mod nat (m_bufSize q)"
  proof -
    have "(Suc (nat (m_outPos q)) mod nat (m_bufSize q) + n) mod nat (m_bufSize q) =
          (Suc (nat (m_outPos q)) + n) mod nat (m_bufSize q)"
      by (rule mod_add_left_eq)
    then show ?thesis by simp
  qed
  have ne: "unread q \<noteq> []"
    using pos by (metis length_unread length_greater_0_conv)
  then have tk: "hd (unread q) # take n (tl (unread q)) = take (Suc n) (unread q)"
    by (cases "unread q") simp_all
  have ih': "pop_seq n ?q1 = (take n (tl (unread q)),
      q\<lparr> m_outPos := int ((nat (m_outPos q) + Suc n) mod nat (m_bufSize q)) \<rparr>)"
    unfolding ih p(2) by (simp only: idx [symmetric]) simp
  have "pop_seq (Suc n) q = (hd (unread q) # take n (tl (unread q)),
      q\<lparr> m_outPos := int ((nat (m_outPos q) + Suc n) mod nat (m_bufSize q)) \<rparr>)"
    unfolding pop_seq.simps p(1) Let_def prod.case ih' by (rule refl)
  then show ?case by (simp only: tk)
qed

lemma push_seq_unread:
  "queue_inv q \<Longrightarrow> length vs \<le> availableForWrite q \<Longrightarrow>
   fst (push_seq q vs) = replicate (length vs) True \<and>
   queue_inv (snd (push_seq q vs)) \<and>
   unread (snd (push_seq q vs)) = unread q @ vs \<and>
   availableForWrite (snd (push_seq q vs)) = availableForWrite q - length vs \<and>
   m_bufSize (snd (push_seq q vs)) = m_bufSize q"
proof (induction vs arbitrary: q)
  case Nil
  then show ?case by simp
next
  case (Cons v vs)
  from Cons.prems have pos: "0 < availableForWrite q" by simp
  note p = push_unread [OF Cons.prems(1) pos, of v]
  have "length vs \<le> availableForWrite (snd (push q v))"
    using Cons.prems(2) by (simp add: p(4))
  with p(2) have ih: "fst (push_seq (snd (push q v)) vs) = replicate (length vs) True \<and>
     queue_inv (snd (push_seq (snd (push q v)) vs)) \<and>
     unread (snd (push_seq (snd (push q v)) vs)) = unread (snd (push q v)) @ vs \<and>
     availableForWrite (snd (push_seq (snd (push q v)) vs)) =
       availableForWrite (snd (push q v)) - length vs \<and>
     m_bufSize (snd (push_seq (snd (push q v)) vs)) = m_bufSize (snd (push q v))"
    by (rule Cons.IH)
  then show ?case
    using p by (simp add: split_beta)
qed



lemma copy_n_eq:
  "first + n \<le> length src \<Longrightarrow> p + n \<le> length dst \<Longrightarrow>
   copy_n src first n (dst, p) =
     (take p dst @ take n (drop first src) @ drop (p + n) dst, p + n)"
proof (induction n arbitrary: first dst p)
  case 0
  then show ?case by simp
next
  case (Suc n)
  let ?dst = "dst[p := src ! first]"
  from Suc.prems have lt: "first < length src" "p < length dst" by simp_all
  have "copy_n src (Suc first) n (?dst, Suc p) =
        (take (Suc p) ?dst @ take n (drop (Suc first) src) @ drop (Suc p + n) ?dst, Suc p + n)"
    using Suc.prems by (intro Suc.IH) simp_all
  moreover have "take (Suc p) ?dst = take p dst @ [src ! first]"
    using lt by (simp add: take_Suc_conv_app_nth)
  moreover have "drop (Suc p + n) ?dst = drop (p + Suc n) dst"
    by simp
  moreover have "src ! first # take n (drop (Suc first) src) = take (Suc n) (drop first src)"
    using lt by (simp add: Cons_nth_drop_Suc [symmetric])
  ultimately show ?case by simp
qed

lemma unread_take:
  assumes "queue_inv q" "s \<le> available q"
  shows "take s (unread q) =
           take (min s (nat (m_bufSize q - m_outPos q))) (drop (nat (m_outPos q)) (m_buffer q)) @
           take (s - min s (nat (m_bufSize q - m_outPos q))) (m_buffer q)"
proof -
  from assms(1) obtain N i o' where n: "m_bufSize q = int N" "m_inPosT q = int i" "m_outPos q = int o'"
    "0 < N" "i < N" "o' < N" "length (m_buffer q) = N"
    by (rule queue_inv_natE)
  have sN: "s < N"
    using assms(2) n by (auto simp add: available_nat split: if_splits)
  have d: "nat (m_bufSize q - m_outPos q) = N - o'"
    using n by simp
  let ?n1 = "min s (N - o')"
  have "take s (unread q) = map (\<lambda>k. m_buffer q ! ((o' + k) mod N)) [0 ..< s]"
    using assms(2) n by (simp add: unread_def take_map)
  also have "\<dots> = take ?n1 (drop o' (m_buffer q)) @ take (s - ?n1) (m_buffer q)"
  proof (rule nth_equalityI)
    show "length (map (\<lambda>k. m_buffer q ! ((o' + k) mod N)) [0 ..< s]) =
          length (take ?n1 (drop o' (m_buffer q)) @ take (s - ?n1) (m_buffer q))"
      using n sN by auto
  next
    fix k assume "k < length (map (\<lambda>k. m_buffer q ! ((o' + k) mod N)) [0 ..< s])"
    then have k: "k < s" by simp
    show "map (\<lambda>k. m_buffer q ! ((o' + k) mod N)) [0 ..< s] ! k =
          (take ?n1 (drop o' (m_buffer q)) @ take (s - ?n1) (m_buffer q)) ! k"
    proof (cases "k < ?n1")
      case True
      then show ?thesis using k n by (simp add: nth_append)
    next
      case False
      with k have n1: "?n1 = N - o'" and ge: "N \<le> o' + k" by auto
      from ge k sN n have "(o' + k) mod N = o' + k - N"
        by (simp add: le_mod_geq)
      also have "\<dots> = k - (N - o')"
        using n ge by arith
      finally have e: "(o' + k) mod N = k - (N - o')" .
      have len1: "length (take ?n1 (drop o' (m_buffer q))) = N - o'"
        using n by (simp add: n1)
      have kge: "N - o' \<le> k"
        using False by (simp only: n1 not_less)
      have "(take ?n1 (drop o' (m_buffer q)) @ take (s - ?n1) (m_buffer q)) ! k =
            take (s - ?n1) (m_buffer q) ! (k - (N - o'))"
        unfolding nth_append len1 using kge by simp
      also have "\<dots> = m_buffer q ! (k - (N - o'))"
        unfolding n1 using k kge by (intro nth_take) arith
      finally show ?thesis using k by (simp add: e)
    qed
  qed
  finally have "take s (unread q) =
      take ?n1 (drop o' (m_buffer q)) @ take (s - ?n1) (m_buffer q)" .
  then show ?thesis unfolding d unfolding n(3) nat_int .
qed

lemma pop_n_unread:
  assumes "queue_inv q" "min sz (available q) \<le> length buffer"
  shows "pop_n q buffer sz =
     (min sz (available q),
      take (min sz (available q)) (unread q) @ drop (min sz (available q)) buffer,
      q\<lparr> m_outPos := int ((nat (m_outPos q) + min sz (available q)) mod nat (m_bufSize q)) \<rparr>)"
proof (cases "min sz (available q) = 0")
  case True
  then show ?thesis
    using assms(1) by (simp add: pop_n_def queue_inv_def)
next
  case False
  let ?s = "min sz (available q)"
  let ?n1 = "min ?s (nat (m_bufSize q - m_outPos q))"
  from assms(1) obtain N i o' where n: "m_bufSize q = int N" "m_inPosT q = int i" "m_outPos q = int o'"
    "0 < N" "i < N" "o' < N" "length (m_buffer q) = N"
    by (rule queue_inv_natE)
  have sN: "?s < N"
    using n by (auto simp add: available_nat min_def split: if_splits)
  have c1: "copy_n (m_buffer q) (nat (m_outPos q)) ?n1 (buffer, 0) =
            (take ?n1 (drop (nat (m_outPos q)) (m_buffer q)) @ drop ?n1 buffer, ?n1)"
    using assms(2) n by (subst copy_n_eq) auto
  let ?b1 = "take ?n1 (drop (nat (m_outPos q)) (m_buffer q)) @ drop ?n1 buffer"
  have l1: "length (take ?n1 (drop (nat (m_outPos q)) (m_buffer q))) = ?n1"
    using n by auto
  have c2: "copy_n (m_buffer q) 0 (?s - ?n1) (?b1, ?n1) =
            (take ?n1 (drop (nat (m_outPos q)) (m_buffer q)) @ take (?s - ?n1) (m_buffer q) @
             drop ?s buffer, ?s)"
    using assms(2) n sN l1 by (subst copy_n_eq) (auto simp add: min_def)
  have "pop_n q buffer sz =
     (?s, take ?n1 (drop (nat (m_outPos q)) (m_buffer q)) @ take (?s - ?n1) (m_buffer q) @
          drop ?s buffer,
      q\<lparr> m_outPos := int ((nat (m_outPos q) + ?s) mod nat (m_bufSize q)) \<rparr>)"
  proof (cases "0 < ?s - ?n1")
    case True
    show ?thesis
      unfolding pop_n_def Let_def if_not_P [OF False] c1 prod.case if_P [OF True] c2
      by (rule refl)
  next
    case nowrap: False
    then have z: "?s - ?n1 = 0" by (simp only: not_gr_zero)
    then have e: "?n1 = ?s" by arith
    show ?thesis
      unfolding pop_n_def Let_def if_not_P [OF False] c1 prod.case if_not_P [OF nowrap] z
      by (simp only: e take_0 append_Nil less_irrefl if_False prod.case)
  qed
  then show ?thesis
    by (simp add: unread_take [OF assms(1), of ?s])
qed

lemma push_stores_order:
  "push_stores q val = Some ss \<Longrightarrow>
   ss = [Store_m_inPosT ((m_inPosT q + 1) smod m_bufSize q), Store_m_buffer (m_inPosT q) val]"
  by (simp add: push_stores_def Let_def split: if_splits)

text \<open>
  The invariant also holds between the two stores of \<^verbatim>\<open>push\<close>: after any prefix of
  its stores.
\<close>

lemma push_stores_inv:
  "queue_inv q \<Longrightarrow> push_stores q val = Some ss \<Longrightarrow> queue_inv (fold apply_store (take k ss) q)"
proof -
  assume inv: "queue_inv q" and ss: "push_stores q val = Some ss"
  from ss have ss': "ss = [Store_m_inPosT ((m_inPosT q + 1) smod m_bufSize q),
                          Store_m_buffer (m_inPosT q) val]"
    by (simp add: push_stores_def Let_def split: if_splits)
  consider "k = 0" | "k = 1" | "2 \<le> k" by arith
  then show ?thesis
  proof cases
    case 1
    then show ?thesis using inv by simp
  next
    case 2
    then show ?thesis using inv by (simp add: ss' queue_inv_def smod_int_compares)
  next
    case 3
    then show ?thesis using inv by (simp add: ss' queue_inv_def smod_int_compares)
  qed
qed

section \<open>An example state\<close>

text \<open>
  A queue of capacity 2 after \<^verbatim>\<open>push(1)\<close>, \<^verbatim>\<open>push(2)\<close>, two calls of \<^verbatim>\<open>pop\<close>, \<^verbatim>\<open>push(3)\<close>
  and \<^verbatim>\<open>push(4)\<close>: it is full, and its two unread elements lie around the end of the
  storage. The witnesses below use this state.
\<close>

lemma reachable_push_seq:
  "q \<in> reachable dflt C \<Longrightarrow> snd (push_seq q vs) \<in> reachable dflt C"
  by (induction vs arbitrary: q) (simp_all add: split_beta reachable.r_push)

lemma reachable_pop_seq:
  "q \<in> reachable dflt C \<Longrightarrow> snd (pop_seq n q) \<in> reachable dflt C"
  by (induction n arbitrary: q) (simp_all add: split_beta reachable.r_pop)

lemma wrapped_state_reached:
  "snd (push_seq (snd (pop_seq 2 (snd (push_seq (CircularQueue (0::nat) (\<lambda>_. 7) 2) [1, 2])))) [3, 4]) =
     \<lparr> defaultValue = 0, m_bufSize = 3, m_buffer = [4, 2, 3], m_inPosT = 1, m_outPos = 2 \<rparr>"
  by (simp add: numeral_2_eq_2 push_def push_stores_def pop_def CircularQueue_def Let_def
      smod_int_alt_def upt_rec)

lemma wrapped_state_reachable:
  "\<lparr> defaultValue = 0::nat, m_bufSize = 3, m_buffer = [4, 2, 3], m_inPosT = 1, m_outPos = 2 \<rparr>
     \<in> reachable 0 2"
  unfolding wrapped_state_reached [symmetric]
  by (intro reachable_push_seq reachable_pop_seq reachable.r_init)

section \<open>The claims\<close>

subsection \<open>C1: order of the two stores of \<^verbatim>\<open>push\<close>\<close>

text \<open>
  C1 states that \<^verbatim>\<open>CircularQueue::push\<close>, on a queue that is not full, first
  writes the value into the slot at the write cursor and only then advances the
  write cursor. The source does the opposite: line 74 stores the advanced
  cursor, line 76 stores the value. On a fresh queue of capacity 1 whose
  uninitialised storage holds 7, \<^verbatim>\<open>push(5)\<close> performs the cursor store first; a
  \<^verbatim>\<open>pop\<close> of the consumer between the two stores finds the queue not empty and
  returns the stale 7, whereas after both stores it returns 5. The sibling
  \<^verbatim>\<open>CircularQueueMP::push\<close> stores the value (line 167) before it publishes
  \<^verbatim>\<open>m_inPosT\<close> (line 176).
\<close>

theorem push_publishes_before_store:
  "push_stores (CircularQueue (0::nat) (\<lambda>_. 7) 1) 5 = Some [Store_m_inPosT 1, Store_m_buffer 0 5] \<and>
   fst (pop (apply_store (Store_m_inPosT 1) (CircularQueue (0::nat) (\<lambda>_. 7) 1))) = 7 \<and>
   fst (pop (snd (push (CircularQueue (0::nat) (\<lambda>_. 7) 1) 5))) = 5"
  by (simp add: push_def push_stores_def pop_def CircularQueue_def Let_def smod_int_alt_def)

subsection \<open>C2: capacity\<close>



subsection \<open>C3: \<^verbatim>\<open>pop_n\<close> against sequential \<^verbatim>\<open>pop\<close>\<close>

text \<open>
  C3: in every state that satisfies the invariant (every reachable state does, see
  \<open>reachable_inv\<close> and \<open>reachableMP_inv\<close>), for every requested count \<open>sz\<close> and
  every caller's array with room for the \<open>n = min sz (available q)\<close> elements to
  copy, \<^verbatim>\<open>pop_n\<close> returns \<open>n\<close>, overwrites the first \<open>n\<close> entries of the array with
  the values that \<open>n\<close> sequential calls of \<^verbatim>\<open>pop\<close> return, in the same order, leaves
  the rest of the array as it was, and leaves the queue in the state after those
  \<open>n\<close> calls, which is the old state with \<^verbatim>\<open>m_outPos\<close> advanced by \<open>n\<close> modulo
  \<^verbatim>\<open>m_bufSize\<close>. The copied range may wrap around the end of the storage, as it
  does in the witness, whose state is reachable (\<open>wrapped_state_reachable\<close>).
\<close>

theorem pop_n_refines_pop:
  "queue_inv q \<Longrightarrow> n = min sz (available q) \<Longrightarrow> n \<le> length buffer \<Longrightarrow>
   pop_n q buffer sz = (n, fst (pop_seq n q) @ drop n buffer, snd (pop_seq n q)) \<and>
   length (fst (pop_seq n q)) = n \<and>
   snd (pop_seq n q) = q\<lparr> m_outPos := (m_outPos q + int n) mod m_bufSize q \<rparr>"
proof -
  assume inv: "queue_inv q" and n: "n = min sz (available q)" and len: "n \<le> length buffer"
  from n have le: "n \<le> available q" by simp
  have ps: "pop_seq n q = (take n (unread q),
      q\<lparr> m_outPos := int ((nat (m_outPos q) + n) mod nat (m_bufSize q)) \<rparr>)"
    using inv le by (rule pop_seq_unread)
  have pn: "pop_n q buffer sz = (n, take n (unread q) @ drop n buffer,
      q\<lparr> m_outPos := int ((nat (m_outPos q) + n) mod nat (m_bufSize q)) \<rparr>)"
    using pop_n_unread [OF inv, of sz buffer] len by (simp only: n)
  have cur: "int ((nat (m_outPos q) + n) mod nat (m_bufSize q)) = (m_outPos q + int n) mod m_bufSize q"
    using inv by (simp add: queue_inv_def zmod_int)
  show ?thesis
    using le by (simp add: ps pn cur)
qed

theorem pop_n_refines_pop_witness:
  "queue_inv \<lparr> defaultValue = 0::nat, m_bufSize = 3, m_buffer = [4, 2, 3], m_inPosT = 1, m_outPos = 2 \<rparr> \<and>
   (2::nat) = min 5 (available \<lparr> defaultValue = 0::nat, m_bufSize = 3, m_buffer = [4, 2, 3], m_inPosT = 1, m_outPos = 2 \<rparr>) \<and>
   2 \<le> length [9, 9, 9, 9 :: nat] \<and>
   pop_n \<lparr> defaultValue = 0::nat, m_bufSize = 3, m_buffer = [4, 2, 3], m_inPosT = 1, m_outPos = 2 \<rparr> [9, 9, 9, 9] 5 =
     (2, [3, 4, 9, 9], \<lparr> defaultValue = 0::nat, m_bufSize = 3, m_buffer = [4, 2, 3], m_inPosT = 1, m_outPos = 1 \<rparr>) \<and>
   pop_seq 2 \<lparr> defaultValue = 0::nat, m_bufSize = 3, m_buffer = [4, 2, 3], m_inPosT = 1, m_outPos = 2 \<rparr> =
     ([3, 4], \<lparr> defaultValue = 0::nat, m_bufSize = 3, m_buffer = [4, 2, 3], m_inPosT = 1, m_outPos = 1 \<rparr>)"
proof -
  let ?q = "\<lparr> defaultValue = 0::nat, m_bufSize = 3, m_buffer = [4, 2, 3], m_inPosT = 1, m_outPos = 2 \<rparr>"
  have h1: "queue_inv ?q" by (simp add: queue_inv_def)
  have h2: "(2::nat) = min 5 (available ?q)" by (simp add: available_def)
  have h3: "2 \<le> length [9, 9, 9, 9 :: nat]" by simp
  have ps: "pop_seq 2 ?q = ([3, 4], ?q\<lparr> m_outPos := 1 \<rparr>)"
    by (simp add: numeral_2_eq_2 pop_def smod_int_alt_def)
  from pop_n_refines_pop [OF h1 h2 h3]
  have "pop_n ?q [9, 9, 9, 9] 5 = (2, fst (pop_seq 2 ?q) @ drop 2 [9, 9, 9, 9], snd (pop_seq 2 ?q))"
    by (rule conjunct1)
  then have "pop_n ?q [9, 9, 9, 9] 5 = (2, [3, 4, 9, 9], ?q\<lparr> m_outPos := 1 \<rparr>)"
    by (simp add: ps)
  with h1 h2 h3 ps show ?thesis by simp
qed

subsection \<open>C4: first in, first out\<close>

text \<open>
  C4: for every capacity \<open>C\<close>, every empty queue of that capacity (the fresh
  one, or any later empty state) and every list \<open>vs\<close> of at most \<open>C\<close> values:
  pushing \<open>vs\<close> in order succeeds each time, and \<open>length vs\<close> subsequent calls of
  \<^verbatim>\<open>pop\<close> return exactly \<open>vs\<close>, in order.
\<close>

theorem fifo_roundtrip:
  "queue_inv q \<Longrightarrow> m_bufSize q = int C + 1 \<Longrightarrow> available q = 0 \<Longrightarrow> length vs \<le> C \<Longrightarrow>
   fst (push_seq q vs) = replicate (length vs) True \<and>
   fst (pop_seq (length vs) (snd (push_seq q vs))) = vs"
proof -
  assume inv: "queue_inv q" and N: "m_bufSize q = int C + 1" and e: "available q = 0"
    and len: "length vs \<le> C"
  from available_sum [OF inv] N e have "availableForWrite q = C" by simp
  with len have "length vs \<le> availableForWrite q" by simp
  with inv have p: "fst (push_seq q vs) = replicate (length vs) True \<and>
     queue_inv (snd (push_seq q vs)) \<and>
     unread (snd (push_seq q vs)) = unread q @ vs \<and>
     availableForWrite (snd (push_seq q vs)) = availableForWrite q - length vs \<and>
     m_bufSize (snd (push_seq q vs)) = m_bufSize q"
    by (rule push_seq_unread)
  from e have "unread q = []" by (simp add: unread_def)
  with p have u: "unread (snd (push_seq q vs)) = vs" by simp
  then have "available (snd (push_seq q vs)) = length vs"
    by (metis length_unread)
  with p have "pop_seq (length vs) (snd (push_seq q vs)) =
     (take (length vs) (unread (snd (push_seq q vs))),
      (snd (push_seq q vs))\<lparr> m_outPos := int ((nat (m_outPos (snd (push_seq q vs))) + length vs)
         mod nat (m_bufSize (snd (push_seq q vs)))) \<rparr>)"
    by (intro pop_seq_unread) simp_all
  with p u show ?thesis by simp
qed

theorem fifo_roundtrip_witness:
  "queue_inv (CircularQueue (0::nat) (\<lambda>_. 7) 3) \<and>
   m_bufSize (CircularQueue (0::nat) (\<lambda>_. 7) 3) = int 3 + 1 \<and>
   available (CircularQueue (0::nat) (\<lambda>_. 7) 3) = 0 \<and>
   length [10, 20, 30 :: nat] \<le> 3 \<and>
   fst (pop_seq (length [10, 20, 30 :: nat]) (snd (push_seq (CircularQueue (0::nat) (\<lambda>_. 7) 3) [10, 20, 30]))) =
     [10, 20, 30]"
proof -
  have h1: "queue_inv (CircularQueue (0::nat) (\<lambda>_. 7) 3)" by (rule queue_inv_init)
  have h2: "m_bufSize (CircularQueue (0::nat) (\<lambda>_. 7) 3) = int 3 + 1" by simp
  have h3: "available (CircularQueue (0::nat) (\<lambda>_. 7) 3) = 0" by (simp add: available_def)
  have h4: "length [10, 20, 30 :: nat] \<le> 3" by simp
  from fifo_roundtrip [OF h1 h2 h3 h4] h1 h2 h3 h4 show ?thesis by blast
qed

subsection \<open>C5: \<^verbatim>\<open>flush\<close>\<close>

text \<open>
  C5: in every state, \<^verbatim>\<open>flush\<close> sets \<^verbatim>\<open>m_outPos\<close> to the current \<^verbatim>\<open>m_inPosT\<close> and
  leaves \<^verbatim>\<open>m_inPosT\<close> (and the storage) unchanged; afterwards \<^verbatim>\<open>available()\<close> is 0
  and \<^verbatim>\<open>pop()\<close> returns the default value and changes nothing, however many
  unread elements there were.
\<close>

theorem flush_discards:
  "m_outPos (flush q) = m_inPosT q \<and> m_inPosT (flush q) = m_inPosT q \<and>
   m_buffer (flush q) = m_buffer q \<and>
   available (flush q) = 0 \<and> pop (flush q) = (defaultValue q, flush q)"
  by (simp add: flush_def available_def pop_def)

subsection \<open>C6: \<^verbatim>\<open>pop\<close>\<close>

text \<open>
  C6: in every state that satisfies the invariant (hence in every reachable
  state), \<^verbatim>\<open>pop\<close> returns the default value and leaves the state alone if
  \<^verbatim>\<open>m_outPos = m_inPosT\<close>; otherwise it returns the element stored in slot
  \<^verbatim>\<open>m_outPos\<close> and advances \<^verbatim>\<open>m_outPos\<close> to \<open>(m_outPos + 1) mod m_bufSize\<close>.
\<close>

theorem pop_spec:
  "queue_inv q \<Longrightarrow>
   pop q = (if m_outPos q = m_inPosT q then (defaultValue q, q)
            else (m_buffer q ! nat (m_outPos q),
                  q\<lparr> m_outPos := (m_outPos q + 1) mod m_bufSize q \<rparr>))"
  by (auto simp add: pop_def Let_def queue_inv_def smod_cursor)

theorem pop_spec_witness:
  "queue_inv \<lparr> defaultValue = 0::nat, m_bufSize = 3, m_buffer = [4, 2, 3], m_inPosT = 1, m_outPos = 2 \<rparr> \<and>
   pop \<lparr> defaultValue = 0::nat, m_bufSize = 3, m_buffer = [4, 2, 3], m_inPosT = 1, m_outPos = 2 \<rparr> =
     (3, \<lparr> defaultValue = 0::nat, m_bufSize = 3, m_buffer = [4, 2, 3], m_inPosT = 1, m_outPos = 0 \<rparr>)"
proof -
  let ?q = "\<lparr> defaultValue = 0::nat, m_bufSize = 3, m_buffer = [4, 2, 3], m_inPosT = 1, m_outPos = 2 \<rparr>"
  have h: "queue_inv ?q" by (simp add: queue_inv_def)
  from pop_spec [OF h] h show ?thesis by simp
qed

subsection \<open>C7: \<^verbatim>\<open>push\<close> on a full queue\<close>

text \<open>
  C7: whenever the queue is full, that is \<open>(m_inPosT + 1) mod m_bufSize = m_outPos\<close>,
  \<^verbatim>\<open>push\<close> returns false and the state after the call is the state before it:
  both cursors and every slot of the storage are unchanged.
\<close>

theorem push_full_spec:
  "queue_inv q \<Longrightarrow> (m_inPosT q + 1) mod m_bufSize q = m_outPos q \<Longrightarrow>
   push q val = (False, q)"
  by (simp add: push_full queue_inv_def smod_cursor)

theorem push_full_spec_witness:
  "queue_inv \<lparr> defaultValue = 0::nat, m_bufSize = 3, m_buffer = [4, 2, 3], m_inPosT = 1, m_outPos = 2 \<rparr> \<and>
   (m_inPosT \<lparr> defaultValue = 0::nat, m_bufSize = 3, m_buffer = [4, 2, 3], m_inPosT = 1, m_outPos = 2 \<rparr> + 1) mod
     m_bufSize \<lparr> defaultValue = 0::nat, m_bufSize = 3, m_buffer = [4, 2, 3], m_inPosT = 1, m_outPos = 2 \<rparr> =
     m_outPos \<lparr> defaultValue = 0::nat, m_bufSize = 3, m_buffer = [4, 2, 3], m_inPosT = 1, m_outPos = 2 \<rparr> \<and>
   push \<lparr> defaultValue = 0::nat, m_bufSize = 3, m_buffer = [4, 2, 3], m_inPosT = 1, m_outPos = 2 \<rparr> 5 =
     (False, \<lparr> defaultValue = 0::nat, m_bufSize = 3, m_buffer = [4, 2, 3], m_inPosT = 1, m_outPos = 2 \<rparr>)"
proof -
  let ?q = "\<lparr> defaultValue = 0::nat, m_bufSize = 3, m_buffer = [4, 2, 3], m_inPosT = 1, m_outPos = 2 \<rparr>"
  have h1: "queue_inv ?q" by (simp add: queue_inv_def)
  have h2: "(m_inPosT ?q + 1) mod m_bufSize ?q = m_outPos ?q" by simp
  from push_full_spec [OF h1 h2] h1 h2 show ?thesis by blast
qed

subsection \<open>C8: the cursors stay in range\<close>



subsection \<open>C9: capacity 0\<close>

text \<open>
  C9: a queue constructed with capacity 0 has one slot. In every state it can
  reach, \<^verbatim>\<open>push\<close> returns false and changes nothing, and \<^verbatim>\<open>available()\<close> and
  \<^verbatim>\<open>availableForWrite()\<close> both return 0.
\<close>

theorem capacity_0:
  "q \<in> reachable dflt 0 \<Longrightarrow>
   push q val = (False, q) \<and> available q = 0 \<and> availableForWrite q = 0"
  using reachable_one_slot [of q dflt]
  by (simp add: push_def push_stores_def available_def availableForWrite_def smod_int_alt_def)

theorem capacity_0_witness:
  "CircularQueue (0::nat) (\<lambda>_. 7) 0 \<in> reachable 0 0 \<and>
   push (CircularQueue (0::nat) (\<lambda>_. 7) 0) 5 = (False, CircularQueue (0::nat) (\<lambda>_. 7) 0) \<and>
   available (CircularQueue (0::nat) (\<lambda>_. 7) 0) = 0 \<and>
   availableForWrite (CircularQueue (0::nat) (\<lambda>_. 7) 0) = 0"
proof -
  have h: "CircularQueue (0::nat) (\<lambda>_. 7) 0 \<in> reachable 0 0"
    by (rule reachable.r_init)
  from capacity_0 [OF h, of 5] h show ?thesis by blast
qed

subsection \<open>C10: \<^verbatim>\<open>CircularQueueMP::push\<close> run alone\<close>

text \<open>
  C10: from any state in which \<^verbatim>\<open>m_inPosL\<close>, \<^verbatim>\<open>m_inPosC\<close> and \<^verbatim>\<open>m_inPosT\<close> are
  equal, the compare-exchange \<^verbatim>\<open>push\<close> of \<^verbatim>\<open>CircularQueueMP\<close>, run with no other
  thread in between and whatever the number of spurious failures of its weak
  compare-exchanges, returns the same boolean as \<^verbatim>\<open>CircularQueue::push\<close> on the
  same state and value and leaves the same storage, \<^verbatim>\<open>m_inPosT\<close> and \<^verbatim>\<open>m_outPos\<close>
  (and the same constant members); afterwards \<^verbatim>\<open>m_inPosL\<close>, \<^verbatim>\<open>m_inPosC\<close> and
  \<^verbatim>\<open>m_inPosT\<close> are equal again. Every state reached by calls made one after the
  other is such a state (\<open>reachableMP_cursors_equal\<close>).
\<close>

theorem mp_push_refines:
  "m_inPosL q = m_inPosT q \<Longrightarrow> m_inPosC q = m_inPosT q \<Longrightarrow>
   fst (CircularQueueMP_push q val sL sC) = fst (push q val) \<and>
   defaultValue (snd (CircularQueueMP_push q val sL sC)) = defaultValue (snd (push q val)) \<and>
   m_bufSize (snd (CircularQueueMP_push q val sL sC)) = m_bufSize (snd (push q val)) \<and>
   m_buffer (snd (CircularQueueMP_push q val sL sC)) = m_buffer (snd (push q val)) \<and>
   m_inPosT (snd (CircularQueueMP_push q val sL sC)) = m_inPosT (snd (push q val)) \<and>
   m_outPos (snd (CircularQueueMP_push q val sL sC)) = m_outPos (snd (push q val)) \<and>
   m_inPosL (snd (CircularQueueMP_push q val sL sC)) = m_inPosT (snd (CircularQueueMP_push q val sL sC)) \<and>
   m_inPosC (snd (CircularQueueMP_push q val sL sC)) = m_inPosT (snd (CircularQueueMP_push q val sL sC))"
  by (simp add: CircularQueueMP_push_eq push_def push_stores_def Let_def)

theorem mp_push_refines_witness:
  "m_inPosL (CircularQueueMP (0::nat) (\<lambda>_. 7) 2) = m_inPosT (CircularQueueMP (0::nat) (\<lambda>_. 7) 2) \<and>
   m_inPosC (CircularQueueMP (0::nat) (\<lambda>_. 7) 2) = m_inPosT (CircularQueueMP (0::nat) (\<lambda>_. 7) 2) \<and>
   fst (CircularQueueMP_push (CircularQueueMP (0::nat) (\<lambda>_. 7) 2) 5 1 2) =
     fst (push (CircularQueueMP (0::nat) (\<lambda>_. 7) 2) 5) \<and>
   m_buffer (snd (CircularQueueMP_push (CircularQueueMP (0::nat) (\<lambda>_. 7) 2) 5 1 2)) = [5, 7, 7] \<and>
   m_buffer (snd (push (CircularQueueMP (0::nat) (\<lambda>_. 7) 2) 5)) = [5, 7, 7] \<and>
   m_inPosT (snd (CircularQueueMP_push (CircularQueueMP (0::nat) (\<lambda>_. 7) 2) 5 1 2)) = 1 \<and>
   m_inPosT (snd (push (CircularQueueMP (0::nat) (\<lambda>_. 7) 2) 5)) = 1 \<and>
   m_inPosL (snd (CircularQueueMP_push (CircularQueueMP (0::nat) (\<lambda>_. 7) 2) 5 1 2)) = 1 \<and>
   m_inPosC (snd (CircularQueueMP_push (CircularQueueMP (0::nat) (\<lambda>_. 7) 2) 5 1 2)) = 1"
proof -
  let ?q = "CircularQueueMP (0::nat) (\<lambda>_. 7) 2"
  have h1: "m_inPosL ?q = m_inPosT ?q" by simp
  have h2: "m_inPosC ?q = m_inPosT ?q" by simp
  have e: "m_buffer (snd (push ?q 5)) = [5, 7, 7] \<and> m_inPosT (snd (push ?q 5)) = 1"
    by (simp add: push_def push_stores_def Let_def smod_int_alt_def upt_rec)
  from mp_push_refines [OF h1 h2, of 5 1 2] h1 h2 e show ?thesis by simp
qed

end
